theory Spec2Isabelle
  imports Complex_Main
begin

section \<open>Data model of \<^verbatim>\<open>clipper.py\<close>\<close>

text \<open>
  Times are Python floats in the source. They are modelled as real numbers; the arithmetic
  that decides whether a download is precise (section Clip acquisition) is rounded as
  binary64 rounds it, elsewhere rounding is outside the model. Strings are lists of 8-bit
  characters, read as the code points 0 to 255.
\<close>

record Segment =
  seg_text :: string
  seg_start :: real
  seg_end :: real

record Match =
  m_text :: string
  m_start :: real
  m_end :: real
  score :: real
  start_segment_index :: nat
  segment_count :: nat

datatype file_path = OutputPath | FullPath

record DownloadResult =
  path :: file_path
  partial :: bool

datatype error = ValueError | RenameError | DownloadError | TrimError

text \<open>
  One event of the json3 caption payload. A field is \<open>None\<close> when the key is absent
  (\<^verbatim>\<open>event.get(key)\<close> returns \<^verbatim>\<open>None\<close>); each element of \<open>segs\<close> is the
  \<^verbatim>\<open>utf8\<close> value of one fragment, \<open>None\<close> when the fragment has none.
\<close>

record event =
  tStartMs :: "int option"
  dDurationMs :: "int option"
  tEndMs :: "int option"
  segs :: "string option list"

section \<open>Text normalizer\<close>

text \<open>
  The character classes of Python's \<^verbatim>\<open>re\<close> on \<^verbatim>\<open>str\<close> patterns, on the code points
  0 to 255: \<^verbatim>\<open>\s\<close> is \<^verbatim>\<open>str.isspace\<close>, \<^verbatim>\<open>\w\<close> is \<^verbatim>\<open>str.isalnum\<close> or underscore.
\<close>

definition is_space :: "char \<Rightarrow> bool" where
  "is_space c = (let n = (of_char c :: nat) in
     (9 \<le> n \<and> n \<le> 13) \<or> (28 \<le> n \<and> n \<le> 32) \<or> n = 133 \<or> n = 160)"

definition is_word :: "char \<Rightarrow> bool" where
  "is_word c = (let n = (of_char c :: nat) in
     (48 \<le> n \<and> n \<le> 57) \<or> (65 \<le> n \<and> n \<le> 90) \<or> n = 95 \<or> (97 \<le> n \<and> n \<le> 122)
     \<or> n = 170 \<or> n = 178 \<or> n = 179 \<or> n = 181 \<or> n = 185 \<or> n = 186
     \<or> (188 \<le> n \<and> n \<le> 190) \<or> (192 \<le> n \<and> n \<le> 214)
     \<or> (216 \<le> n \<and> n \<le> 246) \<or> (248 \<le> n \<and> n \<le> 255))"

text \<open>\<^verbatim>\<open>str.lower\<close>, one character at a time.\<close>

definition lower :: "char \<Rightarrow> char" where
  "lower c = (let n = (of_char c :: nat) in
     if (65 \<le> n \<and> n \<le> 90) \<or> (192 \<le> n \<and> n \<le> 214) \<or> (216 \<le> n \<and> n \<le> 222)
     then char_of (n + 32) else c)"

text \<open>\<^verbatim>\<open>re.sub(r"\s+", " ", s)\<close>: every maximal run of whitespace becomes one blank.\<close>

function sub_ws :: "string \<Rightarrow> string" where
  "sub_ws [] = []"
| "sub_ws (c # cs) =
     (if is_space c then CHR '' '' # sub_ws (dropWhile is_space cs) else c # sub_ws cs)"
  by pat_completeness auto
termination
  by (relation "measure length") (auto simp: length_dropWhile_le le_imp_less_Suc)

text \<open>\<^verbatim>\<open>s.strip()\<close>: leading and trailing whitespace removed.\<close>

definition strip :: "string \<Rightarrow> string" where
  "strip s = rev (dropWhile is_space (rev (dropWhile is_space s)))"

definition normalize :: "string \<Rightarrow> string" where
  "normalize text =
     (let cleaned = map lower (strip (sub_ws text))
      in filter (\<lambda>c. is_word c \<or> is_space c) cleaned)"

section \<open>Timeline builder\<close>

text \<open>The body of the first loop of \<^verbatim>\<open>read_segments_from_json3\<close> for one event.\<close>

definition event_segment :: "event \<Rightarrow> Segment option" where
  "event_segment ev =
     (case tStartMs ev of
        None \<Rightarrow> None
      | Some start_ms \<Rightarrow>
          (let end_ms0 = start_ms + (case dDurationMs ev of None \<Rightarrow> 0 | Some d \<Rightarrow> d);
               end_ms1 = (if end_ms0 = 0
                          then (case tEndMs ev of None \<Rightarrow> end_ms0 | Some e \<Rightarrow> e)
                          else end_ms0);
               end_ms = (if end_ms1 = 0 then start_ms + 1000 else end_ms1);
               text_fragments = List.map_filter
                 (\<lambda>seg. case seg of None \<Rightarrow> None
                         | Some piece \<Rightarrow> if piece = [] then None else Some piece) (segs ev);
               txt = strip (sub_ws (concat text_fragments))
           in if txt = [] then None
              else Some \<lparr>seg_text = txt, seg_start = real_of_int start_ms / 1000,
                         seg_end = real_of_int end_ms / 1000\<rparr>))"

text \<open>
  The second loop, over \<^verbatim>\<open>range(1, len(segments))\<close>: \<open>prev\<close> is the segment before
  \<open>current\<close>, already updated.
\<close>

fun enforce_increasing :: "Segment \<Rightarrow> Segment list \<Rightarrow> Segment list" where
  "enforce_increasing prev [] = []"
| "enforce_increasing prev (current # rest) =
     (let c1 = (if seg_start current < seg_end prev
                then current\<lparr>seg_start := seg_end prev\<rparr> else current);
          c2 = (if seg_end c1 \<le> seg_start c1
                then c1\<lparr>seg_end := seg_start c1 + 0.5\<rparr> else c1)
      in c2 # enforce_increasing c2 rest)"

definition read_segments_from_json3 :: "event list \<Rightarrow> Segment list" where
  "read_segments_from_json3 events =
     (case List.map_filter event_segment events of
        [] \<Rightarrow> []
      | first # rest \<Rightarrow> first # enforce_increasing first rest)"

section \<open>Match locator\<close>

text \<open>\<^verbatim>\<open>" ".join(texts)\<close>\<close>

fun join_space :: "string list \<Rightarrow> string" where
  "join_space [] = []"
| "join_space [t] = t"
| "join_space (t # u # ts) = t @ CHR '' '' # join_space (u # ts)"

fun starts_with :: "string \<Rightarrow> string \<Rightarrow> bool" where
  "starts_with s [] = True"
| "starts_with [] (p # ps) = False"
| "starts_with (c # cs) (p # ps) = (c = p \<and> starts_with cs ps)"

text \<open>\<^verbatim>\<open>p in s\<close> on strings.\<close>

fun contains :: "string \<Rightarrow> string \<Rightarrow> bool" where
  "contains [] p = (p = [])"
| "contains (c # cs) p = (starts_with (c # cs) p \<or> contains cs p)"

text \<open>
  The body of the inner loop of \<^verbatim>\<open>find_best_match\<close>. The similarity
  \<^verbatim>\<open>difflib.SequenceMatcher(None, a, b).ratio()\<close> is library code and is the
  parameter \<open>ratio\<close>.
\<close>

definition consider_window ::
  "(string \<Rightarrow> string \<Rightarrow> real) \<Rightarrow> string \<Rightarrow> Segment list \<Rightarrow> nat \<Rightarrow> Match option \<Rightarrow> nat
   \<Rightarrow> Match option" where
  "consider_window ratio target segments window best index =
     (let window_segments = take window (drop index segments);
          combined = join_space (map seg_text window_segments);
          normalized = normalize combined
      in if normalized = [] then best
         else (let r0 = ratio target normalized;
                   r = (if contains normalized target then r0 + 0.5 else r0)
               in if (case best of None \<Rightarrow> True | Some b \<Rightarrow> r > score b)
                  then Some \<lparr>m_text = combined, m_start = seg_start (hd window_segments),
                              m_end = seg_end (last window_segments), score = r,
                              start_segment_index = index, segment_count = window\<rparr>
                  else best))"

definition find_best_match ::
  "(string \<Rightarrow> string \<Rightarrow> real) \<Rightarrow> Segment list \<Rightarrow> string \<Rightarrow> int \<Rightarrow> Match option" where
  "find_best_match ratio segments query max_window =
     (if segments = [] then None
      else (let target = normalize query
            in if target = [] then None
               else foldl (\<lambda>best window.
                       foldl (consider_window ratio target segments window) best
                         [0 ..< nat (int (length segments) - int window + 1)])
                     None [1 ..< nat (max_window + 1)]))"

section \<open>Clip acquisition\<close>

text \<open>
  What the external tools answer during one run: whether removing an existing destination
  raises \<^verbatim>\<open>OSError\<close>, whether each yt-dlp attempt returns without an exception, whether
  the produced file already has the destination's name and whether renaming it works,
  what \<^verbatim>\<open>probe_duration\<close> returns (\<open>None\<close> when ffprobe is missing, fails or prints
  nothing parseable), whether ffmpeg succeeds, and the caption payload fetched
  (\<open>None\<close> when \<^verbatim>\<open>fetch_transcript_segments\<close> raises).
\<close>

datatype tier = Ranges | Sections | Full

record services =
  unlink_fails :: bool
  attempt_ok :: "tier \<Rightarrow> bool"
  needs_rename :: bool
  rename_ok :: bool
  probe_duration :: "real option"
  ffmpeg_ok :: bool
  fetch :: "event list option"

datatype action = Attempt tier | Probe | Trim file_path | WriteSubtitles

text \<open>The effects of a run: whether the destination file exists, and what was invoked.\<close>

record world =
  dest_exists :: bool
  trace :: "action list"

definition finalize_partial :: "services \<Rightarrow> world \<Rightarrow> error + world" where
  "finalize_partial sv w =
     (if needs_rename sv
      then (if rename_ok sv then Inr (w\<lparr>dest_exists := True\<rparr>) else Inl RenameError)
      else Inr (w\<lparr>dest_exists := True\<rparr>))"

text \<open>
  The arithmetic that decides whether a download is precise is modelled as the source
  computes it, in IEEE binary64 with round-to-nearest, ties to even: a double is the real
  number it denotes, and every operation rounds its exact result with \<open>binary64\<close>.
  Infinities, NaN and overflow beyond the binary64 range are not modelled.
  \<open>exponent2 a\<close> is the integer \<open>e\<close> with \<open>2 ^ e \<le> a < 2 ^ (e + 1)\<close>.
\<close>

function exponent2 :: "real \<Rightarrow> int" where
  "exponent2 a =
     (if a \<le> 0 then 0
      else if 2 \<le> a then exponent2 (a / 2) + 1
      else if a < 1 then exponent2 (a * 2) - 1
      else 0)"
  by pat_completeness auto
termination
proof (relation "measure (\<lambda>a. nat \<bar>\<lfloor>log 2 a\<rfloor>\<bar>)")
  show "wf (measure (\<lambda>a. nat \<bar>\<lfloor>log 2 a\<rfloor>\<bar>))" by simp
next
  fix a :: real
  assume "\<not> a \<le> 0" and a: "2 \<le> a"
  then have "log 2 (a / 2) = log 2 a - 1"
    by (simp add: log_divide)
  moreover have "1 \<le> log 2 a"
    using a by (simp add: le_log_iff)
  ultimately show "(a / 2, a) \<in> measure (\<lambda>a. nat \<bar>\<lfloor>log 2 a\<rfloor>\<bar>)"
    by simp
next
  fix a :: real
  assume p: "\<not> a \<le> 0" and "\<not> 2 \<le> a" and a: "a < 1"
  then have "log 2 (a * 2) = log 2 a + 1"
    by (simp add: log_mult)
  moreover have "log 2 a < 0"
    using a p by simp
  then have "\<lfloor>log 2 a\<rfloor> \<le> - 1"
    by (simp add: floor_le_iff)
  ultimately show "(a * 2, a) \<in> measure (\<lambda>a. nat \<bar>\<lfloor>log 2 a\<rfloor>\<bar>)"
    by simp
qed

definition pow2 :: "int \<Rightarrow> real" where
  "pow2 k = (if 0 \<le> k then 2 ^ nat k else 1 / 2 ^ nat (- k))"

definition round_half_even :: "real \<Rightarrow> int" where
  "round_half_even q =
     (let f = \<lfloor>q\<rfloor>; r = q - of_int f
      in if r < 1 / 2 then f
         else if 1 / 2 < r then f + 1
         else if even f then f else f + 1)"

definition binary64 :: "real \<Rightarrow> real" where
  "binary64 x =
     (let a = \<bar>x\<bar>;
          e = max (exponent2 a) (- 1022);
          ulp = pow2 (e - 52);
          n = round_half_even (a / ulp)
      in (if x < 0 then - (of_int n * ulp) else of_int n * ulp))"

text \<open>\<^verbatim>\<open>x - y\<close> and \<^verbatim>\<open>x * y\<close> on doubles.\<close>

definition fsub :: "real \<Rightarrow> real \<Rightarrow> real" where
  "fsub x y = binary64 (x - y)"

definition fmul :: "real \<Rightarrow> real \<Rightarrow> real" where
  "fmul x y = binary64 (x * y)"

definition assess_download ::
  "services \<Rightarrow> real \<Rightarrow> real \<Rightarrow> file_path \<Rightarrow> DownloadResult" where
  "assess_download sv requested_duration duration_tolerance p =
     (case probe_duration sv of
        None \<Rightarrow> \<lparr>path = p, partial = False\<rparr>
      | Some duration \<Rightarrow>
          if requested_duration = 0 then \<lparr>path = p, partial = True\<rparr>
          else if \<bar>fsub duration requested_duration\<bar> \<le> duration_tolerance
               then \<lparr>path = p, partial = True\<rparr>
               else \<lparr>path = p, partial = False\<rparr>)"

text \<open>\<^verbatim>\<open>return assess_download(finalize_partial(), label)\<close> after a successful attempt.\<close>

definition finish_partial ::
  "services \<Rightarrow> real \<Rightarrow> real \<Rightarrow> world \<Rightarrow> (error + DownloadResult) \<times> world" where
  "finish_partial sv requested_duration duration_tolerance w =
     (case finalize_partial sv w of
        Inl e \<Rightarrow> (Inl e, w)
      | Inr w' \<Rightarrow> (Inr (assess_download sv requested_duration duration_tolerance OutputPath),
                    w'\<lparr>trace := trace w' @ [Probe]\<rparr>))"

definition download_clip ::
  "services \<Rightarrow> real \<Rightarrow> real \<Rightarrow> world \<Rightarrow> (error + DownloadResult) \<times> world" where
  "download_clip sv start end w =
     (if end \<le> start then (Inl ValueError, w)
      else
        (let w0 = w\<lparr>dest_exists := dest_exists w \<and> unlink_fails sv\<rparr>;
             requested_duration = max 0 (fsub end start);
             duration_tolerance = max 1 (fmul requested_duration (binary64 (1 / 10)));
             w1 = w0\<lparr>trace := trace w0 @ [Attempt Ranges]\<rparr>
         in if attempt_ok sv Ranges
            then finish_partial sv requested_duration duration_tolerance w1
            else
              (let w2 = w1\<lparr>trace := trace w1 @ [Attempt Sections]\<rparr>
               in if attempt_ok sv Sections
                  then finish_partial sv requested_duration duration_tolerance w2
                  else
                    (let w3 = w2\<lparr>trace := trace w2 @ [Attempt Full]\<rparr>
                     in if attempt_ok sv Full
                        then (Inr \<lparr>path = FullPath, partial = False\<rparr>, w3)
                        else (Inl DownloadError, w3)))))"

definition trim_with_ffmpeg ::
  "services \<Rightarrow> file_path \<Rightarrow> real \<Rightarrow> real \<Rightarrow> world \<Rightarrow> (error + file_path) \<times> world" where
  "trim_with_ffmpeg sv source start end w =
     (let duration = end - start
      in if duration \<le> 0 then (Inl ValueError, w)
         else (let w1 = w\<lparr>trace := trace w @ [Trim source]\<rparr>
               in if ffmpeg_ok sv then (Inr OutputPath, w1\<lparr>dest_exists := True\<rparr>)
                  else (Inl TrimError, w1)))"

section \<open>Caption slicer\<close>

text \<open>
  One entry of the subtitle file: its index line, the two times of its timing line (in
  seconds, before \<^verbatim>\<open>format_srt_timestamp\<close> renders them) and its text line.
\<close>

record entry =
  counter :: nat
  t_from :: real
  t_to :: real
  caption :: string

text \<open>The second loop of \<^verbatim>\<open>write_subtitle_file\<close>.\<close>

fun emit_entries :: "real \<Rightarrow> real \<Rightarrow> nat \<Rightarrow> Segment list \<Rightarrow> entry list" where
  "emit_entries clip_start clip_end n [] = []"
| "emit_entries clip_start clip_end n (segment # rest) =
     (let s = max (seg_start segment) clip_start - clip_start;
          e = min (seg_end segment) clip_end - clip_start
      in if e \<le> s then emit_entries clip_start clip_end n rest
         else (let txt = strip (sub_ws (seg_text segment))
               in if txt = [] then emit_entries clip_start clip_end n rest
                  else \<lparr>counter = n, t_from = s, t_to = e, caption = txt\<rparr>
                       # emit_entries clip_start clip_end (n + 1) rest))"

text \<open>
  \<open>None\<close> is the return value \<^verbatim>\<open>False\<close>, with no file written; \<open>Some es\<close> is the return
  value \<^verbatim>\<open>True\<close> with the entries written to the destination.
\<close>

definition write_subtitle_file :: "Segment list \<Rightarrow> real \<Rightarrow> real \<Rightarrow> entry list option" where
  "write_subtitle_file segments clip_start clip_end =
     (let relevant = filter (\<lambda>segment. \<not> (seg_end segment \<le> clip_start
                                            \<or> seg_start segment \<ge> clip_end)) segments
      in if relevant = [] then None
         else (let es = emit_entries clip_start clip_end 1 relevant
               in if es = [] then None else Some es))"

section \<open>The run\<close>

text \<open>
  \<^verbatim>\<open>main\<close> after argument parsing: the exit status and the effects. \<open>before_pad\<close> and
  \<open>after_pad\<close> are \<^verbatim>\<open>args.before\<close> and \<^verbatim>\<open>args.after\<close>.
\<close>

definition main ::
  "services \<Rightarrow> (string \<Rightarrow> string \<Rightarrow> real) \<Rightarrow> string \<Rightarrow> int \<Rightarrow> real \<Rightarrow> real \<Rightarrow> world
   \<Rightarrow> int \<times> world" where
  "main sv ratio query max_window before_pad after_pad w =
     (case fetch sv of
        None \<Rightarrow> (1, w)
      | Some events \<Rightarrow>
          (let segments = read_segments_from_json3 events
           in case find_best_match ratio segments query max_window of
                None \<Rightarrow> (2, w)
              | Some m \<Rightarrow>
                  (let clip_start = max 0 (m_start m - before_pad);
                       clip_end = m_end m + after_pad
                   in case download_clip sv clip_start clip_end w of
                        (Inl e, w1) \<Rightarrow> (3, w1)
                      | (Inr download_result, w1) \<Rightarrow>
                          (if partial download_result
                           then (0, w1\<lparr>trace := trace w1 @ [WriteSubtitles]\<rparr>)
                           else (case trim_with_ffmpeg sv (path download_result)
                                        clip_start clip_end w1 of
                                   (Inl e, w2) \<Rightarrow> (3, w2)
                                 | (Inr final_path, w2) \<Rightarrow>
                                     (0, w2\<lparr>trace := trace w2 @ [WriteSubtitles]\<rparr>))))))"

section \<open>Definitions used in the statements\<close>

text \<open>The candidate windows of the match locator, as the specification describes them.\<close>

definition window_text :: "Segment list \<Rightarrow> nat \<Rightarrow> nat \<Rightarrow> string" where
  "window_text segments w i = join_space (map seg_text (take w (drop i segments)))"

definition valid_window :: "Segment list \<Rightarrow> int \<Rightarrow> nat \<Rightarrow> nat \<Rightarrow> bool" where
  "valid_window segments max_window w i =
     (1 \<le> w \<and> int w \<le> max_window \<and> i + w \<le> length segments
      \<and> normalize (window_text segments w i) \<noteq> [])"

definition window_score ::
  "(string \<Rightarrow> string \<Rightarrow> real) \<Rightarrow> string \<Rightarrow> Segment list \<Rightarrow> nat \<Rightarrow> nat \<Rightarrow> real" where
  "window_score ratio target segments w i =
     (let normalized = normalize (window_text segments w i)
      in ratio target normalized + (if contains normalized target then 0.5 else 0))"

definition candidate ::
  "(string \<Rightarrow> string \<Rightarrow> real) \<Rightarrow> string \<Rightarrow> Segment list \<Rightarrow> nat \<Rightarrow> nat \<Rightarrow> Match" where
  "candidate ratio target segments w i =
     \<lparr>m_text = window_text segments w i,
      m_start = seg_start (segments ! i),
      m_end = seg_end (segments ! (i + w - 1)),
      score = window_score ratio target segments w i,
      start_segment_index = i, segment_count = w\<rparr>"

text \<open>
  The windows in the order the two loops of \<^verbatim>\<open>find_best_match\<close> visit them, and the
  loop body on one of them.
\<close>

definition window_pairs :: "Segment list \<Rightarrow> int \<Rightarrow> (nat \<times> nat) list" where
  "window_pairs segments max_window =
     concat (map (\<lambda>window. map (Pair window)
                    [0 ..< nat (int (length segments) - int window + 1)])
               [1 ..< nat (max_window + 1)])"

definition window_step ::
  "(string \<Rightarrow> string \<Rightarrow> real) \<Rightarrow> string \<Rightarrow> Segment list \<Rightarrow> Match option \<Rightarrow> nat \<times> nat
   \<Rightarrow> Match option" where
  "window_step ratio target segments best p =
     consider_window ratio target segments (fst p) best (snd p)"

definition in_range :: "Segment list \<Rightarrow> nat \<times> nat \<Rightarrow> bool" where
  "in_range segments p = (1 \<le> fst p \<and> snd p + fst p \<le> length segments)"

definition nonblank :: "Segment list \<Rightarrow> nat \<times> nat \<Rightarrow> bool" where
  "nonblank segments p = (normalize (window_text segments (fst p) (snd p)) \<noteq> [])"

definition lex_before :: "nat \<times> nat \<Rightarrow> nat \<times> nat \<Rightarrow> bool" where
  "lex_before p q = (fst p < fst q \<or> (fst p = fst q \<and> snd p < snd q))"

text \<open>A similarity for evaluating the match locator on examples: 1 on equal strings, else 0.\<close>

definition exact_ratio :: "string \<Rightarrow> string \<Rightarrow> real" where
  "exact_ratio a b = (if a = b then 1 else 0)"

text \<open>
  The caption slicer as the specification describes it: the segments that overlap the
  window, have a positive clipped duration and a text that is not blank, each clipped to
  the window, re-timed relative to its start, and numbered from 1.
\<close>

definition emitted :: "real \<Rightarrow> real \<Rightarrow> Segment \<Rightarrow> bool" where
  "emitted clip_start clip_end segment =
     (seg_end segment > clip_start \<and> seg_start segment < clip_end
      \<and> max (seg_start segment) clip_start - clip_start
          < min (seg_end segment) clip_end - clip_start
      \<and> strip (sub_ws (seg_text segment)) \<noteq> [])"

definition retimed :: "real \<Rightarrow> real \<Rightarrow> nat \<times> Segment \<Rightarrow> entry" where
  "retimed clip_start clip_end ns =
     \<lparr>counter = fst ns,
      t_from = max (seg_start (snd ns)) clip_start - clip_start,
      t_to = min (seg_end (snd ns)) clip_end - clip_start,
      caption = strip (sub_ws (seg_text (snd ns)))\<rparr>"

definition sliced :: "Segment list \<Rightarrow> real \<Rightarrow> real \<Rightarrow> entry list" where
  "sliced segments clip_start clip_end =
     map (retimed clip_start clip_end)
       (enumerate 1 (filter (emitted clip_start clip_end) segments))"

text \<open>Concrete inputs for evaluating the run.\<close>

definition hello_events :: "event list" where
  "hello_events = [\<lparr>tStartMs = Some 0, dDurationMs = Some 2000, tEndMs = None,
                     segs = [Some ''hello there'']\<rparr>]"

definition services_with :: "(tier \<Rightarrow> bool) \<Rightarrow> real option \<Rightarrow> services" where
  "services_with ok probe =
     \<lparr>unlink_fails = False, attempt_ok = ok, needs_rename = False, rename_ok = True,
      probe_duration = probe, ffmpeg_ok = True, fetch = Some hello_events\<rparr>"

definition only_full :: "tier \<Rightarrow> bool" where
  "only_full t = (t = Full)"

definition any_tier :: "tier \<Rightarrow> bool" where
  "any_tier t = True"

definition fresh :: world where
  "fresh = \<lparr>dest_exists = False, trace = []\<rparr>"

definition hello_match :: Match where
  "hello_match = \<lparr>m_text = ''hello there'', m_start = 0, m_end = 2, score = 3 / 2,
     start_segment_index = 0, segment_count = 1\<rparr>"

definition tie_segments :: "Segment list" where
  "tie_segments = [\<lparr>seg_text = ''Hello!'', seg_start = 0, seg_end = 1\<rparr>,
                   \<lparr>seg_text = ''hello'', seg_start = 1, seg_end = 2\<rparr>]"

definition tie_match :: Match where
  "tie_match = \<lparr>m_text = ''Hello!'', m_start = 0, m_end = 1, score = 3 / 2,
     start_segment_index = 0, segment_count = 1\<rparr>"

definition dots_events :: "event list" where
  "dots_events = [\<lparr>tStartMs = Some 0, dDurationMs = Some 1000, tEndMs = None,
                    segs = [Some ''...'']\<rparr>]"

text \<open>Whitespace runs are single blanks, none of them doubled.\<close>

fun tidy :: "string \<Rightarrow> bool" where
  "tidy [] = True"
| "tidy (c # cs) =
     (if is_space c
      then c = CHR '' '' \<and> (case cs of [] \<Rightarrow> True | d # _ \<Rightarrow> \<not> is_space d) \<and> tidy cs
      else tidy cs)"

definition keep :: "char \<Rightarrow> bool" where
  "keep c = (is_word c \<or> is_space c)"

definition fold_ws :: "string \<Rightarrow> string" where
  "fold_ws s = map lower (strip (sub_ws s))"

text \<open>
  The whitespace-separated tokens of a string, as \<^verbatim>\<open>s.split()\<close> gives them: the maximal
  runs of characters that are not whitespace.
\<close>

function split_ws :: "string \<Rightarrow> string list" where
  "split_ws [] = []"
| "split_ws (c # cs) =
     (if is_space c then split_ws cs
      else (c # takeWhile (\<lambda>d. \<not> is_space d) cs) # split_ws (dropWhile (\<lambda>d. \<not> is_space d) cs))"
  by pat_completeness auto
termination
  by (relation "measure length") (auto simp: length_dropWhile_le le_imp_less_Suc)

text \<open>Trailing whitespace removed.\<close>

definition rstrip :: "string \<Rightarrow> string" where
  "rstrip s = rev (dropWhile is_space (rev s))"

text \<open>What the normalizer leaves of a token: its kept characters, in lower case.\<close>

definition word_part :: "string \<Rightarrow> string" where
  "word_part t = filter keep (map lower t)"

text \<open>A token is not empty and holds no whitespace.\<close>

definition token :: "string \<Rightarrow> bool" where
  "token t = (t \<noteq> [] \<and> list_all (\<lambda>c. \<not> is_space c) t)"

section \<open>Properties of the text normalizer\<close>

lemma is_space_lower: "is_space (lower c) = is_space c"
  unfolding is_space_def lower_def Let_def by auto

lemma is_word_lower: "is_word (lower c) = is_word c"
  unfolding is_word_def lower_def Let_def by auto

lemma lower_lower: "lower (lower c) = lower c"
  unfolding lower_def Let_def by auto

lemma is_space_blank: "is_space (CHR '' '')"
  by (simp add: is_space_def)

lemma lower_blank: "lower (CHR '' '') = CHR '' ''"
  by (simp add: lower_def)

lemma dropWhile_space_map_lower:
  "dropWhile is_space (map lower s) = map lower (dropWhile is_space s)"
  by (induction s) (simp_all add: is_space_lower)

lemma sub_ws_map_lower: "sub_ws (map lower s) = map lower (sub_ws s)"
  by (induction s rule: sub_ws.induct)
     (simp_all add: is_space_lower lower_blank dropWhile_space_map_lower)

lemma strip_map_lower: "strip (map lower s) = map lower (strip s)"
  by (simp add: strip_def dropWhile_space_map_lower rev_map)

lemma tidy_sub_ws: "tidy (sub_ws s)"
proof (induction s rule: sub_ws.induct)
  case 1
  show ?case by simp
next
  case (2 c cs)
  show ?case
  proof (cases "is_space c")
    case True
    let ?r = "dropWhile is_space cs"
    have hd: "case sub_ws ?r of [] \<Rightarrow> True | d # _ \<Rightarrow> \<not> is_space d"
    proof (cases ?r)
      case Nil
      then show ?thesis by (simp only: sub_ws.simps list.case)
    next
      case (Cons d ds)
      then have "\<not> is_space d"
        by (metis hd_dropWhile list.sel(1) list.distinct(1))
      with Cons show ?thesis by (simp only: sub_ws.simps if_False list.case not_False_eq_True)
    qed
    from True 2 hd show ?thesis by (simp add: is_space_blank)
  next
    case False
    with 2 show ?thesis by simp
  qed
qed

lemma sub_ws_tidy: "tidy s \<Longrightarrow> sub_ws s = s"
proof (induction s rule: sub_ws.induct)
  case 1
  show ?case by simp
next
  case (2 c cs)
  show ?case
  proof (cases "is_space c")
    case True
    with 2 have "dropWhile is_space cs = cs"
      by (cases cs) auto
    with True 2 show ?thesis by simp
  next
    case False
    with 2 show ?thesis by simp
  qed
qed


lemma tidy_append_right: "tidy (xs @ ys) \<Longrightarrow> tidy ys"
  by (induction xs) (simp_all split: if_splits)

lemma tidy_append_left: "tidy (xs @ ys) \<Longrightarrow> tidy xs"
proof (induction xs)
  case Nil
  show ?case by simp
next
  case (Cons x xs)
  show ?case
  proof (cases "is_space x")
    case True
    with Cons show ?thesis
      by (cases xs) simp_all
  next
    case False
    with Cons show ?thesis by simp
  qed
qed

lemma strip_prefix:
  "dropWhile is_space s = strip s @ rev (takeWhile is_space (rev (dropWhile is_space s)))"
proof -
  let ?d = "dropWhile is_space s"
  have "rev (takeWhile is_space (rev ?d) @ dropWhile is_space (rev ?d)) = rev (rev ?d)"
    by (simp only: takeWhile_dropWhile_id)
  then show ?thesis
    by (simp only: rev_append rev_rev_ident strip_def)
qed

lemma tidy_strip: "tidy s \<Longrightarrow> tidy (strip s)"
proof -
  assume t: "tidy s"
  have "tidy (takeWhile is_space s @ dropWhile is_space s)" using t by simp
  then have "tidy (dropWhile is_space s)" by (rule tidy_append_right)
  then have "tidy (strip s @ rev (takeWhile is_space (rev (dropWhile is_space s))))"
    using strip_prefix [of s] by simp
  then show ?thesis by (rule tidy_append_left)
qed

lemma dropWhile_strip: "dropWhile is_space (strip s) = strip s"
proof (cases "strip s")
  case Nil
  then show ?thesis by simp
next
  case (Cons x xs)
  then have "dropWhile is_space s = x # (xs @ rev (takeWhile is_space (rev (dropWhile is_space s))))"
    using strip_prefix [of s] by simp
  then have "\<not> is_space x"
    by (metis hd_dropWhile list.sel(1) list.distinct(1))
  with Cons show ?thesis by simp
qed

lemma strip_strip: "strip (strip s) = strip s"
proof -
  have "strip (strip s) = rev (dropWhile is_space (rev (strip s)))"
    by (simp add: strip_def [of "strip s"] dropWhile_strip)
  also have "\<dots> = strip s"
    by (simp add: strip_def dropWhile_idem)
  finally show ?thesis .
qed

lemma set_sub_ws: "set (sub_ws s) \<subseteq> insert (CHR '' '') (set s)"
proof (induction s rule: sub_ws.induct)
  case 1
  show ?case by simp
next
  case (2 c cs)
  have "set (dropWhile is_space cs) \<subseteq> set cs"
    by (simp add: set_dropWhileD subsetI)
  with 2 show ?case by (cases "is_space c") auto
qed

lemma set_strip: "set (strip s) \<subseteq> set s"
  by (auto simp: strip_def dest!: set_dropWhileD)

lemma keep_lower: "keep (lower c) = keep c"
  by (simp add: keep_def is_word_lower is_space_lower)

lemma normalize_fold_ws: "normalize s = filter keep (fold_ws s)"
  by (simp add: normalize_def fold_ws_def keep_def [abs_def])

lemma fold_ws_idem: "fold_ws (fold_ws s) = fold_ws s"
proof -
  have t: "tidy (strip (sub_ws s))"
    by (rule tidy_strip) (rule tidy_sub_ws)
  have "fold_ws (fold_ws s) = map lower (strip (map lower (sub_ws (strip (sub_ws s)))))"
    by (simp add: fold_ws_def sub_ws_map_lower)
  also have "\<dots> = map lower (strip (map lower (strip (sub_ws s))))"
    using t by (simp add: sub_ws_tidy)
  also have "\<dots> = fold_ws s"
    by (simp add: fold_ws_def strip_map_lower strip_strip lower_lower)
  finally show ?thesis .
qed

lemma keep_fold_ws:
  assumes "\<forall>c \<in> set s. keep c"
  shows "\<forall>c \<in> set (fold_ws s). keep c"
proof
  fix c assume "c \<in> set (fold_ws s)"
  then obtain d where d: "d \<in> set (strip (sub_ws s))" and c: "c = lower d"
    by (auto simp: fold_ws_def)
  from d have "d \<in> insert (CHR '' '') (set s)"
    using set_strip set_sub_ws by blast
  with assms have "keep d"
    by (auto simp: keep_def is_space_blank)
  with c show "keep c" by (simp add: keep_lower)
qed

lemma normalize_clean:
  assumes "\<forall>c \<in> set s. keep c"
  shows "normalize s = fold_ws s"
  using keep_fold_ws [OF assms] by (simp add: normalize_fold_ws)

lemma normalize_fixed:
  assumes "\<forall>c \<in> set s. keep c"
  shows "normalize (normalize s) = normalize s"
proof -
  have "normalize (normalize s) = normalize (fold_ws s)"
    using assms by (simp add: normalize_clean)
  also have "\<dots> = fold_ws (fold_ws s)"
    using keep_fold_ws [OF assms] by (rule normalize_clean)
  also have "\<dots> = normalize s"
    using assms by (simp add: fold_ws_idem normalize_clean)
  finally show ?thesis .
qed

lemma keep_normalize: "\<forall>c \<in> set (normalize s). keep c"
  by (simp add: normalize_fold_ws)

text \<open>
  The normalizer works token by token: the result is the tokens of the input, each reduced
  to its kept characters in lower case, joined by single blanks. A token that holds no
  word character leaves an empty string between two blanks (or at an end), which a second
  call removes.
\<close>

lemma strip_rstrip: "strip s = rstrip (dropWhile is_space s)"
  by (simp add: strip_def rstrip_def)

lemma rstrip_Nil_iff: "rstrip s = [] \<longleftrightarrow> list_all is_space s"
  by (simp add: rstrip_def dropWhile_eq_Nil_conv list_all_iff)

lemma rstrip_append:
  "rstrip (xs @ ys) = (if list_all is_space ys then rstrip xs else xs @ rstrip ys)"
  by (simp add: rstrip_def dropWhile_append list_all_iff)

lemma rstrip_spacefree: "list_all (\<lambda>c. \<not> is_space c) s \<Longrightarrow> rstrip s = s"
proof (induction s rule: rev_induct)
  case Nil
  then show ?case by (simp add: rstrip_def)
next
  case (snoc x xs)
  then show ?case by (simp add: rstrip_def)
qed

lemma dropWhile_sub_ws: "dropWhile is_space (sub_ws s) = sub_ws (dropWhile is_space s)"
proof (induction s rule: sub_ws.induct)
  case 1
  then show ?case by simp
next
  case (2 c cs)
  show ?case
  proof (cases "is_space c")
    case True
    have "dropWhile is_space (dropWhile is_space cs) = dropWhile is_space cs"
      by (induction cs) simp_all
    with True 2 show ?thesis by (simp add: is_space_blank)
  next
    case False
    then show ?thesis by simp
  qed
qed

lemma sub_ws_token_append:
  "list_all (\<lambda>c. \<not> is_space c) w \<Longrightarrow> sub_ws (w @ r) = w @ sub_ws r"
  by (induction w) simp_all

lemma takeWhile_spacefree:
  "list_all (\<lambda>c. \<not> is_space c) (takeWhile (\<lambda>d. \<not> is_space d) cs)"
  by (induction cs) simp_all

lemma split_ws_tokens: "list_all token (split_ws s)"
proof (induction s rule: split_ws.induct)
  case 1
  then show ?case by simp
next
  case (2 c cs)
  from 2 takeWhile_spacefree [of cs] show ?case
    by (cases "is_space c") (simp_all add: token_def)
qed

lemma join_space_Cons:
  "join_space (t # ts) = (if ts = [] then t else t @ CHR '' '' # join_space ts)"
  by (cases ts) simp_all

lemma join_space_Nil_iff: "list_all token ts \<Longrightarrow> join_space ts = [] \<longleftrightarrow> ts = []"
  by (cases ts) (auto simp: join_space_Cons token_def)

lemma strip_sub_ws_drop: "strip (sub_ws (dropWhile is_space s)) = strip (sub_ws s)"
proof -
  have "dropWhile is_space (dropWhile is_space s) = dropWhile is_space s"
    by (induction s) simp_all
  then show ?thesis
    by (simp add: strip_rstrip dropWhile_sub_ws)
qed

lemma dropWhile_space_idem:
  "dropWhile is_space (dropWhile is_space s) = dropWhile is_space s"
  by (induction s) simp_all

lemma rstrip_token_sub_ws:
  assumes w: "list_all (\<lambda>c. \<not> is_space c) w"
    and r: "r = dropWhile (\<lambda>d. \<not> is_space d) cs"
    and ih: "strip (sub_ws r) = join_space (split_ws r)"
  shows "rstrip (w @ sub_ws r) = join_space (w # split_ws r)"
proof (cases r)
  case Nil
  then show ?thesis using w by (simp add: rstrip_spacefree)
next
  case (Cons d ds)
  then have d: "is_space d"
    using r by (metis (mono_tags, lifting) dropWhile_eq_Cons_conv)
  let ?u = "sub_ws (dropWhile is_space ds)"
  have u: "sub_ws r = CHR '' '' # ?u"
    using Cons d by simp
  have du: "dropWhile is_space ?u = ?u"
    by (simp add: dropWhile_sub_ws dropWhile_space_idem)
  have "strip (sub_ws r) = rstrip (dropWhile is_space ?u)"
    by (simp add: u strip_rstrip is_space_blank)
  then have j: "join_space (split_ws r) = rstrip ?u"
    using ih du by simp
  have n: "rstrip ?u = [] \<longleftrightarrow> split_ws r = []"
    using j join_space_Nil_iff [OF split_ws_tokens, of r] by simp
  have a: "rstrip (w @ sub_ws r)
      = (if list_all is_space (sub_ws r) then rstrip w else w @ rstrip (sub_ws r))"
    by (rule rstrip_append)
  show ?thesis
  proof (cases "split_ws r = []")
    case True
    then have "list_all is_space (sub_ws r)"
      using n by (simp add: u is_space_blank rstrip_Nil_iff)
    then have "rstrip (w @ sub_ws r) = w"
      using a w by (simp add: rstrip_spacefree)
    then show ?thesis using True by simp
  next
    case False
    then have nu: "\<not> list_all is_space ?u"
      using n by (simp add: rstrip_Nil_iff)
    then have "\<not> list_all is_space (sub_ws r)"
      by (simp add: u)
    then have "rstrip (w @ sub_ws r) = w @ rstrip (sub_ws r)"
      using a by simp
    also have "rstrip (sub_ws r) = CHR '' '' # rstrip ?u"
      using rstrip_append [of "[CHR '' '']" ?u] nu by (simp add: u)
    finally show ?thesis
      using False j by (simp add: join_space_Cons)
  qed
qed

lemma strip_sub_ws_split: "strip (sub_ws s) = join_space (split_ws s)"
proof (induction s rule: split_ws.induct)
  case 1
  then show ?case by (simp add: strip_def)
next
  case (2 c cs)
  show ?case
  proof (cases "is_space c")
    case True
    have "strip (sub_ws (c # cs)) = strip (sub_ws (dropWhile is_space (c # cs)))"
      by (simp only: strip_sub_ws_drop)
    also have "\<dots> = strip (sub_ws (dropWhile is_space cs))"
      using True by simp
    also have "\<dots> = strip (sub_ws cs)"
      by (rule strip_sub_ws_drop)
    finally show ?thesis using True 2 by simp
  next
    case False
    let ?w = "c # takeWhile (\<lambda>d. \<not> is_space d) cs"
    let ?r = "dropWhile (\<lambda>d. \<not> is_space d) cs"
    have w: "list_all (\<lambda>c. \<not> is_space c) ?w"
      using False takeWhile_spacefree [of cs] by simp
    have cs: "c # cs = ?w @ ?r" by simp
    have ih: "strip (sub_ws ?r) = join_space (split_ws ?r)"
      using False 2 by simp
    have sw: "sub_ws (c # cs) = ?w @ sub_ws ?r"
      by (subst cs) (rule sub_ws_token_append [OF w])
    have "dropWhile is_space (?w @ sub_ws ?r) = ?w @ sub_ws ?r"
      using False by simp
    then have "strip (sub_ws (c # cs)) = rstrip (?w @ sub_ws ?r)"
      by (simp only: strip_rstrip sw)
    also have "\<dots> = join_space (?w # split_ws ?r)"
      using w refl ih by (rule rstrip_token_sub_ws)
    also have "?w # split_ws ?r = split_ws (c # cs)"
      using False by simp
    finally show ?thesis .
  qed
qed


lemma map_lower_join: "map lower (join_space ts) = join_space (map (map lower) ts)"
  by (induction ts rule: join_space.induct) (simp_all add: lower_blank)

lemma filter_keep_join: "filter keep (join_space ts) = join_space (map (filter keep) ts)"
  by (induction ts rule: join_space.induct) (simp_all add: keep_def is_space_blank)

lemma normalize_tokens: "normalize s = join_space (map word_part (split_ws s))"
proof -
  have "normalize s = filter keep (map lower (join_space (split_ws s)))"
    by (simp add: normalize_def keep_def [abs_def] strip_sub_ws_split)
  also have "\<dots> = join_space (map word_part (split_ws s))"
    by (simp add: map_lower_join filter_keep_join word_part_def [abs_def] comp_def)
  finally show ?thesis .
qed

lemma split_ws_spacefree:
  "list_all (\<lambda>c. \<not> is_space c) w \<Longrightarrow> split_ws w = (if w = [] then [] else [w])"
proof (cases w)
  case Nil
  then show ?thesis by simp
next
  case (Cons c cs)
  assume "list_all (\<lambda>c. \<not> is_space c) w"
  with Cons have c: "\<not> is_space c" and cs: "\<forall>x \<in> set cs. \<not> is_space x"
    by (simp_all add: list_all_iff)
  from cs have t: "takeWhile (\<lambda>d. \<not> is_space d) cs = cs"
    and d: "dropWhile (\<lambda>d. \<not> is_space d) cs = []"
    by simp_all
  have "split_ws (c # cs)
      = (c # takeWhile (\<lambda>d. \<not> is_space d) cs) # split_ws (dropWhile (\<lambda>d. \<not> is_space d) cs)"
    using c by simp
  also have "\<dots> = [c # cs]"
    by (simp only: t d split_ws.simps)
  finally show ?thesis using Cons by simp
qed

lemma split_ws_blank: "split_ws (CHR '' '' # r) = split_ws r"
  by (simp add: is_space_blank)

lemma split_ws_token_blank:
  assumes "list_all (\<lambda>c. \<not> is_space c) w"
  shows "split_ws (w @ CHR '' '' # r) = (if w = [] then split_ws r else w # split_ws r)"
proof (cases w)
  case Nil
  then show ?thesis by (simp add: is_space_blank)
next
  case (Cons c cs)
  with assms have c: "\<not> is_space c" and cs: "\<forall>x \<in> set cs. \<not> is_space x"
    by (simp_all add: list_all_iff)
  from cs have t: "takeWhile (\<lambda>d. \<not> is_space d) (cs @ CHR '' '' # r) = cs"
    by (simp add: takeWhile_append2 is_space_blank)
  from cs have d: "dropWhile (\<lambda>d. \<not> is_space d) (cs @ CHR '' '' # r) = CHR '' '' # r"
    by (simp add: dropWhile_append2 is_space_blank)
  have "split_ws (w @ CHR '' '' # r)
      = (c # takeWhile (\<lambda>d. \<not> is_space d) (cs @ CHR '' '' # r))
        # split_ws (dropWhile (\<lambda>d. \<not> is_space d) (cs @ CHR '' '' # r))"
    using c Cons by simp
  also have "\<dots> = w # split_ws r"
    by (simp only: t d split_ws_blank Cons)
  finally show ?thesis using Cons by simp
qed

lemma split_ws_join:
  "list_all (list_all (\<lambda>c. \<not> is_space c)) gs
     \<Longrightarrow> split_ws (join_space gs) = filter (\<lambda>w. w \<noteq> []) gs"
proof (induction gs rule: join_space.induct)
  case 1
  then show ?case by simp
next
  case (2 t)
  then show ?case by (simp add: split_ws_spacefree)
next
  case (3 t u ts)
  then have t: "list_all (\<lambda>c. \<not> is_space c) t"
    and ih: "split_ws (join_space (u # ts)) = filter (\<lambda>w. w \<noteq> []) (u # ts)"
    by simp_all
  have "split_ws (join_space (t # u # ts))
      = (if t = [] then split_ws (join_space (u # ts)) else t # split_ws (join_space (u # ts)))"
    using split_ws_token_blank [OF t] by simp
  then show ?case
    by (simp only: ih) simp
qed

lemma word_part_spacefree:
  "list_all (\<lambda>c. \<not> is_space c) t \<Longrightarrow> list_all (\<lambda>c. \<not> is_space c) (word_part t)"
  by (induction t) (simp_all add: word_part_def is_space_lower)

lemma word_part_idem: "word_part (word_part t) = word_part t"
  by (induction t) (simp_all add: word_part_def keep_lower lower_lower)

lemma word_part_Nil_iff:
  "list_all (\<lambda>c. \<not> is_space c) t \<Longrightarrow> word_part t \<noteq> [] \<longleftrightarrow> list_ex is_word t"
  by (induction t) (auto simp: word_part_def keep_def is_word_lower is_space_lower)

lemma normalize_twice_tokens:
  "normalize (normalize s)
     = join_space (filter (\<lambda>w. w \<noteq> []) (map word_part (split_ws s)))"
proof -
  let ?gs = "map word_part (split_ws s)"
  have sf: "list_all (list_all (\<lambda>c. \<not> is_space c)) ?gs"
  proof -
    have "list_all (\<lambda>c. \<not> is_space c) (word_part t)" if "t \<in> set (split_ws s)" for t
    proof -
      from that split_ws_tokens [of s] have "token t"
        by (simp add: list_all_iff)
      then show ?thesis
        by (simp add: token_def word_part_spacefree)
    qed
    then show ?thesis
      by (simp add: list_all_iff)
  qed
  have "normalize (normalize s) = join_space (map word_part (split_ws (join_space ?gs)))"
    by (simp only: normalize_tokens)
  also have "split_ws (join_space ?gs) = filter (\<lambda>w. w \<noteq> []) ?gs"
    using sf by (rule split_ws_join)
  also have "map word_part (filter (\<lambda>w. w \<noteq> []) ?gs) = filter (\<lambda>w. w \<noteq> []) ?gs"
    by (rule map_idI) (auto simp: word_part_idem)
  finally show ?thesis .
qed

lemma length_join_space:
  "length (join_space gs) = sum_list (map length gs) + (length gs - 1)"
  by (induction gs rule: join_space.induct) simp_all

lemma sum_length_filter:
  "sum_list (map length (filter (\<lambda>w. w \<noteq> []) gs)) = sum_list (map length gs)"
  by (induction gs) simp_all

lemma join_filter_iff:
  "join_space (filter (\<lambda>w. w \<noteq> []) gs) = join_space gs
     \<longleftrightarrow> length gs \<le> 1 \<or> list_all (\<lambda>w. w \<noteq> []) gs"
proof (cases "list_all (\<lambda>w. w \<noteq> []) gs")
  case True
  then have "filter (\<lambda>w. w \<noteq> []) gs = gs"
    by (simp add: list_all_iff)
  with True show ?thesis by simp
next
  case False
  show ?thesis
  proof (cases "length gs \<le> 1")
    case True
    then have "gs = [] \<or> (\<exists>g. gs = [g])"
      by (cases gs) auto
    then have "join_space (filter (\<lambda>w. w \<noteq> []) gs) = join_space gs"
      by auto
    with True show ?thesis by simp
  next
    case long: False
    have "length (filter (\<lambda>w. w \<noteq> []) gs) < length gs"
      using False by (simp add: list_all_iff length_filter_less)
    then have "length (join_space (filter (\<lambda>w. w \<noteq> []) gs)) < length (join_space gs)"
      using long by (simp add: length_join_space sum_length_filter)
    then have "join_space (filter (\<lambda>w. w \<noteq> []) gs) \<noteq> join_space gs"
      by auto
    with False long show ?thesis by simp
  qed
qed

text \<open>
  C3, as stated: \<^verbatim>\<open>normalize(normalize(x)) == normalize(x)\<close> for every string. It fails:
  the whitespace runs are collapsed before the punctuation is removed, so removing
  \<^verbatim>\<open>.\<close> from \<^verbatim>\<open>a . b\<close> leaves two adjacent blanks, which a second call collapses.
\<close>

theorem normalize_not_idempotent:
  "normalize ''a . b'' = ''a  b'' \<and> normalize (normalize ''a . b'') = ''a b''
   \<and> normalize (normalize ''a . b'') \<noteq> normalize ''a . b''"
  by code_simp

text \<open>
  C3, amended: normalizing twice gives the same as normalizing once exactly when the
  string has at most one whitespace-separated token or every whitespace-separated token
  holds a word character. So it holds on punctuated text such as \<^verbatim>\<open>Hello, there!\<close>, and
  fails exactly when a token made only of removed characters stands beside another token.
\<close>

theorem normalize_idempotent_iff_tokens_have_words:
  "normalize (normalize x) = normalize x
     \<longleftrightarrow> length (split_ws x) \<le> 1 \<or> list_all (list_ex is_word) (split_ws x)"
proof -
  let ?gs = "map word_part (split_ws x)"
  have "word_part t \<noteq> [] \<longleftrightarrow> list_ex is_word t" if "t \<in> set (split_ws x)" for t
  proof -
    from that split_ws_tokens [of x] have "token t"
      by (simp add: list_all_iff)
    then show ?thesis
      by (simp add: token_def word_part_Nil_iff)
  qed
  then have w: "list_all (\<lambda>w. w \<noteq> []) ?gs \<longleftrightarrow> list_all (list_ex is_word) (split_ws x)"
    by (simp add: list_all_iff)
  have "normalize (normalize x) = normalize x
      \<longleftrightarrow> join_space (filter (\<lambda>w. w \<noteq> []) ?gs) = join_space ?gs"
    by (simp only: normalize_twice_tokens) (simp only: normalize_tokens)
  also have "\<dots> \<longleftrightarrow> length ?gs \<le> 1 \<or> list_all (\<lambda>w. w \<noteq> []) ?gs"
    by (rule join_filter_iff)
  finally show ?thesis
    using w by simp
qed

theorem normalize_idempotent_iff_tokens_have_words_witness:
  "split_ws ''Hello, there!'' = [''Hello,'', ''there!'']
   \<and> normalize ''Hello, there!'' = ''hello there''
   \<and> normalize (normalize ''Hello, there!'') = normalize ''Hello, there!''
   \<and> split_ws ''a . b'' = [''a'', ''.'', ''b'']
   \<and> normalize (normalize ''a . b'') \<noteq> normalize ''a . b''"
proof -
  have s: "split_ws ''Hello, there!'' = [''Hello,'', ''there!'']"
    by code_simp
  have n: "normalize ''Hello, there!'' = ''hello there''"
    by code_simp
  have h: "length (split_ws ''Hello, there!'') \<le> 1
      \<or> list_all (list_ex is_word) (split_ws ''Hello, there!'')"
    by code_simp
  have t: "split_ws ''a . b'' = [''a'', ''.'', ''b'']"
    by code_simp
  have f: "\<not> (length (split_ws ''a . b'') \<le> 1
      \<or> list_all (list_ex is_word) (split_ws ''a . b''))"
    by code_simp
  from h have i: "normalize (normalize ''Hello, there!'') = normalize ''Hello, there!''"
    by (simp only: normalize_idempotent_iff_tokens_have_words)
  from f have j: "normalize (normalize ''a . b'') \<noteq> normalize ''a . b''"
    using normalize_idempotent_iff_tokens_have_words [of "''a . b''"] by blast
  from s n i t j show ?thesis
    by (intro conjI)
qed

text \<open>For every string, the result of a second call is a fixed point.\<close>

lemma normalize_stable_after_two: "normalize (normalize (normalize x)) = normalize (normalize x)"
  by (rule normalize_fixed) (rule keep_normalize)

section \<open>Properties of the clip acquisition\<close>

lemma download_clip_partial_tier:
  assumes "start < end" and "attempt_ok sv Ranges \<or> attempt_ok sv Sections"
    and "download_clip sv start end w = (Inr r, w')"
  shows "r = assess_download sv (max 0 (fsub end start))
           (max 1 (fmul (max 0 (fsub end start)) (binary64 (1 / 10)))) OutputPath"
  using assms
  by (auto simp: download_clip_def finish_partial_def Let_def
           split: if_splits sum.splits)

lemma main_trims_imprecise:
  assumes "fetch sv = Some evs"
    and "find_best_match ratio (read_segments_from_json3 evs) query mw = Some m"
    and "download_clip sv (max 0 (m_start m - before_pad)) (m_end m + after_pad) w = (Inr r, w1)"
    and "\<not> partial r"
  shows "Trim (path r) \<in> set (trace (snd (main sv ratio query mw before_pad after_pad w)))"
proof -
  have "max 0 (m_start m - before_pad) < m_end m + after_pad"
    using assms(3) by (auto simp: download_clip_def split: if_splits)
  then show ?thesis
    using assms by (auto simp: main_def trim_with_ffmpeg_def Let_def)
qed

text \<open>
  C10: a call of \<^verbatim>\<open>download_clip\<close> with clip end at or before clip start raises
  \<^verbatim>\<open>ValueError\<close> and changes nothing: no attempt is in the trace and the destination is
  as it was.
\<close>

theorem download_clip_rejects_empty_window:
  "end \<le> start \<Longrightarrow> download_clip sv start end w = (Inl ValueError, w)"
  by (simp add: download_clip_def)

theorem download_clip_rejects_empty_window_witness:
  "download_clip (services_with any_tier (Some 3)) 5 5 fresh = (Inl ValueError, fresh)
   \<and> download_clip (services_with any_tier (Some 3)) 5 4 fresh = (Inl ValueError, fresh)"
  using download_clip_rejects_empty_window [of 5 5 "services_with any_tier (Some 3)" fresh]
    download_clip_rejects_empty_window [of 4 5 "services_with any_tier (Some 3)" fresh]
  by simp

text \<open>
  C5: when a tier-1 or tier-2 attempt succeeds, the requested duration
  \<^verbatim>\<open>max(0.0, end - start)\<close> is positive and the probe gives \<open>actual\<close>, the result is
  marked precise exactly when \<^verbatim>\<open>abs(actual - requested) <= max(1.0, requested * 0.1)\<close>,
  computed in doubles as the source does. The witness is the specification's example:
  10 s requested, 10.9 s measured is precise, 11.2 s is not.
\<close>

theorem precise_iff_within_tolerance:
  assumes "start < end" and "attempt_ok sv Ranges \<or> attempt_ok sv Sections"
    and "probe_duration sv = Some actual"
    and "download_clip sv start end w = (Inr r, w')"
    and "requested = max 0 (fsub end start)" and "0 < requested"
  shows "partial r
    \<longleftrightarrow> \<bar>fsub actual requested\<bar> \<le> max 1 (fmul requested (binary64 (1 / 10)))"
proof -
  have "r = assess_download sv requested
      (max 1 (fmul requested (binary64 (1 / 10)))) OutputPath"
    unfolding assms(5) using assms(1,2,4) by (rule download_clip_partial_tier)
  with assms(3,6) show ?thesis
    by (simp add: assess_download_def)
qed

theorem precise_iff_within_tolerance_witness:
  "download_clip (services_with any_tier (Some (binary64 (109 / 10)))) 0 10 fresh
     = (Inr \<lparr>path = OutputPath, partial = True\<rparr>,
        \<lparr>dest_exists = True, trace = [Attempt Ranges, Probe]\<rparr>)
   \<and> \<bar>fsub (binary64 (109 / 10)) 10\<bar> \<le> max 1 (fmul 10 (binary64 (1 / 10)))
   \<and> download_clip (services_with any_tier (Some (binary64 (112 / 10)))) 0 10 fresh
     = (Inr \<lparr>path = OutputPath, partial = False\<rparr>,
        \<lparr>dest_exists = True, trace = [Attempt Ranges, Probe]\<rparr>)
   \<and> \<not> \<bar>fsub (binary64 (112 / 10)) 10\<bar> \<le> max 1 (fmul 10 (binary64 (1 / 10)))"
proof -
  let ?a = "services_with any_tier (Some (binary64 (109 / 10)))"
  let ?b = "services_with any_tier (Some (binary64 (112 / 10)))"
  have a: "download_clip ?a 0 10 fresh
     = (Inr \<lparr>path = OutputPath, partial = True\<rparr>,
        \<lparr>dest_exists = True, trace = [Attempt Ranges, Probe]\<rparr>)"
    by code_simp
  have b: "download_clip ?b 0 10 fresh
     = (Inr \<lparr>path = OutputPath, partial = False\<rparr>,
        \<lparr>dest_exists = True, trace = [Attempt Ranges, Probe]\<rparr>)"
    by code_simp
  have req: "(10::real) = max 0 (fsub 10 0)"
    by code_simp
  have ok: "attempt_ok ?a Ranges \<or> attempt_ok ?a Sections"
      "attempt_ok ?b Ranges \<or> attempt_ok ?b Sections"
      "probe_duration ?a = Some (binary64 (109 / 10))"
      "probe_duration ?b = Some (binary64 (112 / 10))"
    by (simp_all add: services_with_def any_tier_def)
  have "\<bar>fsub (binary64 (109 / 10)) 10\<bar> \<le> max 1 (fmul 10 (binary64 (1 / 10)))"
    using precise_iff_within_tolerance [OF _ ok(1) ok(3) a req] by simp
  moreover have "\<not> \<bar>fsub (binary64 (112 / 10)) 10\<bar> \<le> max 1 (fmul 10 (binary64 (1 / 10)))"
    using precise_iff_within_tolerance [OF _ ok(2) ok(4) b req] by simp
  ultimately show ?thesis
    using a b by (simp only: simp_thms)
qed

text \<open>
  At the edge of the tolerance the doubles decide: for 13 s requested and 14.3 s measured
  the difference is the double above 1.3 and the tolerance the double nearest to 1.3, so the
  result is imprecise, although 14.3 - 13 = 1.3 over the reals.
\<close>

lemma tolerance_edge_in_doubles:
  "fsub (binary64 (143 / 10)) 13 = 365917469723853 / 281474976710656
   \<and> max 1 (fmul 13 (binary64 (1 / 10))) = 5854679515581645 / 4503599627370496
   \<and> download_clip (services_with any_tier (Some (binary64 (143 / 10)))) 0 13 fresh
     = (Inr \<lparr>path = OutputPath, partial = False\<rparr>,
        \<lparr>dest_exists = True, trace = [Attempt Ranges, Probe]\<rparr>)"
  by code_simp

lemma download_clip_full_tier:
  assumes "start < end" and "\<not> attempt_ok sv Ranges" and "\<not> attempt_ok sv Sections"
    and "attempt_ok sv Full"
  shows "fst (download_clip sv start end w) = Inr \<lparr>path = FullPath, partial = False\<rparr>"
  using assms by (simp add: download_clip_def Let_def)

lemma hello_found:
  "find_best_match exact_ratio (read_segments_from_json3 hello_events) ''Hello, there!'' 4
     = Some hello_match"
  by code_simp

text \<open>
  C6: when both range attempts fail and the full download succeeds, the outcome is marked
  imprecise whatever the probe would report, and the run invokes the local trim on the full
  file.
\<close>

theorem full_download_always_trimmed:
  assumes "fetch sv = Some evs"
    and "find_best_match ratio (read_segments_from_json3 evs) query mw = Some m"
    and "clip_start = max 0 (m_start m - before_pad)" and "clip_end = m_end m + after_pad"
    and "clip_start < clip_end"
    and "\<not> attempt_ok sv Ranges" and "\<not> attempt_ok sv Sections" and "attempt_ok sv Full"
  shows "fst (download_clip sv clip_start clip_end w) = Inr \<lparr>path = FullPath, partial = False\<rparr>
    \<and> Trim FullPath \<in> set (trace (snd (main sv ratio query mw before_pad after_pad w)))"
proof -
  have d: "fst (download_clip sv clip_start clip_end w) = Inr \<lparr>path = FullPath, partial = False\<rparr>"
    using assms(5-8) by (rule download_clip_full_tier)
  then obtain w1 where
    "download_clip sv clip_start clip_end w = (Inr \<lparr>path = FullPath, partial = False\<rparr>, w1)"
    by (cases "download_clip sv clip_start clip_end w") simp
  then have "Trim (path \<lparr>path = FullPath, partial = False\<rparr>)
      \<in> set (trace (snd (main sv ratio query mw before_pad after_pad w)))"
    using assms(1-4) by (intro main_trims_imprecise [where evs = evs and m = m and ?w1.0 = w1]) simp_all
  with d show ?thesis by simp
qed

theorem full_download_always_trimmed_witness:
  "fst (download_clip (services_with only_full (Some 7)) 0 7 fresh)
     = Inr \<lparr>path = FullPath, partial = False\<rparr>
   \<and> Trim FullPath \<in> set (trace (snd (main (services_with only_full (Some 7)) exact_ratio
        ''Hello, there!'' 4 5 5 fresh)))"
proof -
  let ?sv = "services_with only_full (Some 7)"
  have "fetch ?sv = Some hello_events"
    by (simp add: services_with_def)
  moreover have "(0::real) = max 0 (m_start hello_match - 5)" "(7::real) = m_end hello_match + 5"
    by (simp_all add: hello_match_def)
  moreover have "\<not> attempt_ok ?sv Ranges" "\<not> attempt_ok ?sv Sections" "attempt_ok ?sv Full"
    by (simp_all add: services_with_def only_full_def)
  moreover have "(0::real) < 7" by simp
  ultimately show ?thesis
    using hello_found
    by (intro full_download_always_trimmed [where evs = hello_events and m = hello_match])
qed

text \<open>
  C2, as stated: after a tier-1 or tier-2 acquisition whose duration probe fails, the
  result is marked precise and the trim is skipped. The code does the opposite: the result
  has \<^verbatim>\<open>partial=False\<close> and the run trims the file.
\<close>

theorem probe_failure_not_precise:
  "download_clip (services_with any_tier None) 0 7 fresh
     = (Inr \<lparr>path = OutputPath, partial = False\<rparr>,
        \<lparr>dest_exists = True, trace = [Attempt Ranges, Probe]\<rparr>)
   \<and> main (services_with any_tier None) exact_ratio ''Hello, there!'' 4 5 5 fresh
     = (0, \<lparr>dest_exists = True,
             trace = [Attempt Ranges, Probe, Trim OutputPath, WriteSubtitles]\<rparr>)"
  by code_simp

text \<open>
  C2, amended: after a tier-1 or tier-2 acquisition whose duration probe fails, the result
  is marked imprecise and the run invokes the local trim on it.
\<close>

theorem probe_failure_is_trimmed:
  assumes "fetch sv = Some evs"
    and "find_best_match ratio (read_segments_from_json3 evs) query mw = Some m"
    and "clip_start = max 0 (m_start m - before_pad)" and "clip_end = m_end m + after_pad"
    and "attempt_ok sv Ranges \<or> attempt_ok sv Sections"
    and "probe_duration sv = None"
    and "download_clip sv clip_start clip_end w = (Inr r, w1)"
  shows "r = \<lparr>path = OutputPath, partial = False\<rparr>
    \<and> Trim OutputPath \<in> set (trace (snd (main sv ratio query mw before_pad after_pad w)))"
proof -
  have "clip_start < clip_end"
    using assms(7) by (auto simp: download_clip_def split: if_splits)
  then have "r = assess_download sv (max 0 (fsub clip_end clip_start))
      (max 1 (fmul (max 0 (fsub clip_end clip_start)) (binary64 (1 / 10)))) OutputPath"
    using assms(5,7) by (rule download_clip_partial_tier)
  then have r: "r = \<lparr>path = OutputPath, partial = False\<rparr>"
    using assms(6) by (simp add: assess_download_def)
  then have "Trim (path r) \<in> set (trace (snd (main sv ratio query mw before_pad after_pad w)))"
    using assms(1-4,7)
    by (intro main_trims_imprecise [where evs = evs and m = m and ?w1.0 = w1]) simp_all
  with r show ?thesis by simp
qed

theorem probe_failure_is_trimmed_witness:
  "Trim OutputPath \<in> set (trace (snd (main (services_with any_tier None) exact_ratio
        ''Hello, there!'' 4 5 5 fresh)))"
proof -
  let ?sv = "services_with any_tier None"
  have "fetch ?sv = Some hello_events" "probe_duration ?sv = None"
      "attempt_ok ?sv Ranges \<or> attempt_ok ?sv Sections"
    by (simp_all add: services_with_def any_tier_def)
  moreover have "(0::real) = max 0 (m_start hello_match - 5)" "(7::real) = m_end hello_match + 5"
    by (simp_all add: hello_match_def)
  moreover have "download_clip ?sv 0 7 fresh
     = (Inr \<lparr>path = OutputPath, partial = False\<rparr>,
        \<lparr>dest_exists = True, trace = [Attempt Ranges, Probe]\<rparr>)"
    by code_simp
  ultimately show ?thesis
    using hello_found
      probe_failure_is_trimmed [where sv = ?sv and evs = hello_events and m = hello_match
        and ratio = exact_ratio and query = "''Hello, there!''" and mw = 4
        and clip_start = 0 and clip_end = 7 and before_pad = 5 and after_pad = 5
        and w = fresh]
    by blast
qed

section \<open>Properties of the timeline builder\<close>

lemma enforce_increasing_ok:
  "successively (\<lambda>a b. seg_end a \<le> seg_start b) (prev # enforce_increasing prev rest)
   \<and> (\<forall>s \<in> set (enforce_increasing prev rest). seg_start s < seg_end s)"
  by (induction rest arbitrary: prev) (auto simp: Let_def)

lemma timeline_after_first:
  "successively (\<lambda>a b. seg_end a \<le> seg_start b) (read_segments_from_json3 events)
   \<and> (\<forall>s \<in> set (tl (read_segments_from_json3 events)). seg_start s < seg_end s)"
  using enforce_increasing_ok
  by (auto simp: read_segments_from_json3_def split: list.splits)

text \<open>
  C1: every segment the timeline builder returns has \<open>end > start\<close>, and every segment
  starts at or after the end of the one before it. The second half holds, and so does the
  first for every segment but the first (lemma \<open>timeline_after_first\<close>). The repair loop
  starts at index 1 and never looks at the span of the first segment: an event with
  duration 0 that comes first keeps \<open>end = start\<close>.
\<close>

theorem first_segment_span_not_repaired:
  "read_segments_from_json3
     [\<lparr>tStartMs = Some 1000, dDurationMs = Some 0, tEndMs = None, segs = [Some ''a'']\<rparr>]
   = [\<lparr>seg_text = ''a'', seg_start = 1, seg_end = 1\<rparr>]"
  by code_simp

text \<open>
  C8: the end of a segment comes from the duration when present, else from the explicit
  end, else is \<open>start + 1000 ms\<close>. The code tests whether \<open>start + duration\<close> is zero,
  not whether the duration is present: an event that starts at 1000 ms without a duration
  keeps \<open>end = start\<close>, whether or not it has an explicit end. The fallbacks work for
  events that start at 0 (lemma \<open>end_fallbacks_at_zero\<close>).
\<close>

theorem end_fallbacks_skipped:
  "read_segments_from_json3
     [\<lparr>tStartMs = Some 1000, dDurationMs = None, tEndMs = Some 3000, segs = [Some ''hi'']\<rparr>]
   = [\<lparr>seg_text = ''hi'', seg_start = 1, seg_end = 1\<rparr>]
   \<and> read_segments_from_json3
     [\<lparr>tStartMs = Some 1000, dDurationMs = None, tEndMs = None, segs = [Some ''hi'']\<rparr>]
   = [\<lparr>seg_text = ''hi'', seg_start = 1, seg_end = 1\<rparr>]"
  by code_simp

lemma end_fallbacks_at_zero:
  "read_segments_from_json3
     [\<lparr>tStartMs = Some 0, dDurationMs = None, tEndMs = Some 3000, segs = [Some ''hi'']\<rparr>]
   = [\<lparr>seg_text = ''hi'', seg_start = 0, seg_end = 3\<rparr>]
   \<and> read_segments_from_json3
     [\<lparr>tStartMs = Some 0, dDurationMs = None, tEndMs = None, segs = [Some ''hi'']\<rparr>]
   = [\<lparr>seg_text = ''hi'', seg_start = 0, seg_end = 1\<rparr>]"
  by code_simp

section \<open>Properties of the caption slicer\<close>

lemma emit_entries_enumerate:
  "emit_entries cs ce n xs
   = map (retimed cs ce)
       (enumerate n (filter (\<lambda>s. max (seg_start s) cs - cs < min (seg_end s) ce - cs
                                \<and> strip (sub_ws (seg_text s)) \<noteq> []) xs))"
  by (induction xs arbitrary: n) (auto simp: Let_def retimed_def)

lemma emitted_filter:
  "filter (\<lambda>s. max (seg_start s) cs - cs < min (seg_end s) ce - cs
               \<and> strip (sub_ws (seg_text s)) \<noteq> [])
     (filter (\<lambda>s. \<not> (seg_end s \<le> cs \<or> seg_start s \<ge> ce)) xs)
   = filter (emitted cs ce) xs"
  by (induction xs) (auto simp: emitted_def)

text \<open>
  C7: the caption slicer writes exactly the entries of \<open>sliced\<close>, and no file when there
  are none. The witness is the specification's example: in the window from 5 to 15 the
  segment from 3 to 7 is written with the times 0 and 2.
\<close>

theorem caption_slicer_emits_overlapping:
  "write_subtitle_file segments clip_start clip_end
   = (if sliced segments clip_start clip_end = [] then None
      else Some (sliced segments clip_start clip_end))"
proof -
  let ?rel = "filter (\<lambda>s. \<not> (seg_end s \<le> clip_start \<or> seg_start s \<ge> clip_end)) segments"
  have e: "emit_entries clip_start clip_end 1 ?rel = sliced segments clip_start clip_end"
    by (simp only: emit_entries_enumerate emitted_filter sliced_def)
  have "?rel = [] \<Longrightarrow> sliced segments clip_start clip_end = []"
    using e by (metis emit_entries.simps(1))
  then show ?thesis
    unfolding write_subtitle_file_def Let_def e by auto
qed

theorem caption_slicer_emits_overlapping_witness:
  "sliced [\<lparr>seg_text = ''before'', seg_start = 1, seg_end = 4\<rparr>,
           \<lparr>seg_text = ''a  line'', seg_start = 3, seg_end = 7\<rparr>,
           \<lparr>seg_text = ''after'', seg_start = 15, seg_end = 16\<rparr>] 5 15
     = [\<lparr>counter = 1, t_from = 0, t_to = 2, caption = ''a line''\<rparr>]
   \<and> write_subtitle_file
          [\<lparr>seg_text = ''before'', seg_start = 1, seg_end = 4\<rparr>,
           \<lparr>seg_text = ''a  line'', seg_start = 3, seg_end = 7\<rparr>,
           \<lparr>seg_text = ''after'', seg_start = 15, seg_end = 16\<rparr>] 5 15
     = Some [\<lparr>counter = 1, t_from = 0, t_to = 2, caption = ''a line''\<rparr>]"
proof -
  let ?segs = "[\<lparr>seg_text = ''before'', seg_start = 1, seg_end = 4\<rparr>,
           \<lparr>seg_text = ''a  line'', seg_start = 3, seg_end = 7\<rparr>,
           \<lparr>seg_text = ''after'', seg_start = 15, seg_end = 16\<rparr>]"
  have s: "sliced ?segs 5 15 = [\<lparr>counter = 1, t_from = 0, t_to = 2, caption = ''a line''\<rparr>]"
    by code_simp
  with caption_slicer_emits_overlapping [of ?segs 5 15] show ?thesis
    by simp
qed

section \<open>Properties of the match locator\<close>

lemma foldl_window_pairs:
  "foldl f a (concat (map (\<lambda>w. map (Pair w) (g w)) ws))
   = foldl (\<lambda>b w. foldl (\<lambda>b' i. f b' (w, i)) b (g w)) a ws"
  by (induction ws arbitrary: a) (simp_all add: foldl_map)

lemma find_best_match_scan:
  "find_best_match ratio segments query max_window
   = (if segments = [] then None
      else if normalize query = [] then None
      else foldl (window_step ratio (normalize query) segments) None
             (window_pairs segments max_window))"
  by (simp add: find_best_match_def Let_def window_pairs_def foldl_window_pairs
        window_step_def [abs_def])

lemma set_concat_pairs:
  "(w, i) \<in> set (concat (map (\<lambda>w. map (Pair w) (g w)) ws)) \<longleftrightarrow> w \<in> set ws \<and> i \<in> set (g w)"
  by (induction ws) auto

lemma set_window_pairs:
  "p \<in> set (window_pairs segments max_window)
   \<longleftrightarrow> in_range segments p \<and> int (fst p) \<le> max_window"
proof (cases p)
  case (Pair w i)
  have "(w, i) \<in> set (window_pairs segments max_window)
    \<longleftrightarrow> (1 \<le> w \<and> w < nat (max_window + 1))
        \<and> i < nat (int (length segments) - int w + 1)"
    by (simp add: window_pairs_def set_concat_pairs del: set_concat)
  also have "\<dots> \<longleftrightarrow> (1 \<le> w \<and> int w \<le> max_window) \<and> i + w \<le> length segments"
    by linarith
  finally show ?thesis
    using Pair by (auto simp: in_range_def)
qed

lemma sorted_wrt_concat_map:
  assumes "\<forall>x \<in> set xs. sorted_wrt R (f x)"
    and "sorted_wrt (\<lambda>a b. \<forall>p \<in> set (f a). \<forall>q \<in> set (f b). R p q) xs"
  shows "sorted_wrt R (concat (map f xs))"
  using assms by (induction xs) (auto simp: sorted_wrt_append)

lemma sorted_window_pairs: "sorted_wrt lex_before (window_pairs segments max_window)"
  unfolding window_pairs_def
proof (rule sorted_wrt_concat_map)
  show "\<forall>w \<in> set [1..<nat (max_window + 1)].
      sorted_wrt lex_before (map (Pair w) [0..<nat (int (length segments) - int w + 1)])"
    by (simp add: sorted_wrt_map lex_before_def)
  have "sorted_wrt (<) [1..<nat (max_window + 1)]"
    by simp
  then show "sorted_wrt (\<lambda>a b.
       \<forall>p \<in> set (map (Pair a) [0..<nat (int (length segments) - int a + 1)]).
       \<forall>q \<in> set (map (Pair b) [0..<nat (int (length segments) - int b + 1)]). lex_before p q)
     [1..<nat (max_window + 1)]"
    by (rule sorted_wrt_mono_rel [rotated]) (auto simp: lex_before_def)
qed

lemma window_ends:
  assumes "1 \<le> w" and "i + w \<le> length segments"
  shows "hd (take w (drop i segments)) = segments ! i"
    and "last (take w (drop i segments)) = segments ! (i + w - 1)"
proof -
  from assms show "hd (take w (drop i segments)) = segments ! i"
    by (simp add: hd_drop_conv_nth)
  have len: "length (take w (drop i segments)) = w"
    using assms by simp
  then have "take w (drop i segments) \<noteq> []"
    using assms by (metis length_0_conv not_one_le_zero)
  then have "last (take w (drop i segments)) = take w (drop i segments) ! (w - 1)"
    by (metis last_conv_nth len)
  also have "\<dots> = segments ! (i + w - 1)"
    using assms by simp
  finally show "last (take w (drop i segments)) = segments ! (i + w - 1)" .
qed

lemma window_step_eq:
  assumes "in_range segments p"
  shows "window_step ratio target segments best p
    = (if \<not> nonblank segments p then best
       else if (case best of None \<Rightarrow> True
                | Some b \<Rightarrow> window_score ratio target segments (fst p) (snd p) > score b)
            then Some (candidate ratio target segments (fst p) (snd p))
            else best)"
  using assms window_ends [of "fst p" "snd p" segments]
  by (cases best)
     (simp_all add: window_step_def consider_window_def Let_def nonblank_def window_text_def
        candidate_def window_score_def in_range_def)

lemma scan_result:
  assumes "\<forall>p \<in> set ps. in_range segments p"
  shows "case foldl (window_step ratio target segments) None ps of
      None \<Rightarrow> (\<forall>p \<in> set ps. \<not> nonblank segments p)
    | Some m \<Rightarrow>
        (\<exists>xs p ys. ps = xs @ p # ys \<and> nonblank segments p
           \<and> m = candidate ratio target segments (fst p) (snd p)
           \<and> (\<forall>q \<in> set xs. nonblank segments q \<longrightarrow>
                 window_score ratio target segments (fst q) (snd q) < score m)
           \<and> (\<forall>q \<in> set ys. nonblank segments q \<longrightarrow>
                 window_score ratio target segments (fst q) (snd q) \<le> score m))"
  using assms
proof (induction ps rule: rev_induct)
  case Nil
  show ?case by simp
next
  case (snoc p' ps)
  let ?best = "foldl (window_step ratio target segments) None ps"
  let ?sc = "\<lambda>q. window_score ratio target segments (fst q) (snd q)"
  have rng: "in_range segments p'" and rest: "\<forall>p \<in> set ps. in_range segments p"
    using snoc.prems by simp_all
  have step: "foldl (window_step ratio target segments) None (ps @ [p'])
      = window_step ratio target segments ?best p'"
    by simp
  have sc_cand: "score (candidate ratio target segments (fst p') (snd p')) = ?sc p'"
    by (simp add: candidate_def)
  show ?case
  proof (cases ?best)
    case None
    then have blank: "\<forall>p \<in> set ps. \<not> nonblank segments p"
      using snoc.IH [OF rest] by simp
    show ?thesis
    proof (cases "nonblank segments p'")
      case True
      then have "window_step ratio target segments ?best p'
          = Some (candidate ratio target segments (fst p') (snd p'))"
        using None by (simp add: window_step_eq [OF rng])
      moreover have "\<exists>xs p ys. ps @ [p'] = xs @ p # ys \<and> nonblank segments p
           \<and> candidate ratio target segments (fst p') (snd p')
               = candidate ratio target segments (fst p) (snd p)
           \<and> (\<forall>q \<in> set xs. nonblank segments q \<longrightarrow> ?sc q
                  < score (candidate ratio target segments (fst p') (snd p')))
           \<and> (\<forall>q \<in> set ys. nonblank segments q \<longrightarrow> ?sc q
                  \<le> score (candidate ratio target segments (fst p') (snd p')))"
        using True blank by (intro exI [of _ ps] exI [of _ p'] exI [of _ "[]"]) simp
      ultimately show ?thesis
        by (simp only: step option.case)
    next
      case False
      then have "window_step ratio target segments ?best p' = None"
        using None by (simp add: window_step_eq [OF rng])
      with False blank show ?thesis
        by (simp only: step) simp
    qed
  next
    case (Some m)
    then obtain xs p ys where ps: "ps = xs @ p # ys" and nb: "nonblank segments p"
      and m: "m = candidate ratio target segments (fst p) (snd p)"
      and before: "\<forall>q \<in> set xs. nonblank segments q \<longrightarrow> ?sc q < score m"
      and after: "\<forall>q \<in> set ys. nonblank segments q \<longrightarrow> ?sc q \<le> score m"
      using snoc.IH [OF rest] by auto
    have scm: "score m = ?sc p"
      using m by (simp add: candidate_def)
    show ?thesis
    proof (cases "nonblank segments p' \<and> ?sc p' > score m")
      case True
      then have "window_step ratio target segments ?best p'
          = Some (candidate ratio target segments (fst p') (snd p'))"
        using Some by (simp add: window_step_eq [OF rng])
      moreover have "\<forall>q \<in> set ps. nonblank segments q \<longrightarrow> ?sc q < ?sc p'"
        using True before after nb scm ps by fastforce
      then have "\<exists>xs p ys. ps @ [p'] = xs @ p # ys \<and> nonblank segments p
           \<and> candidate ratio target segments (fst p') (snd p')
               = candidate ratio target segments (fst p) (snd p)
           \<and> (\<forall>q \<in> set xs. nonblank segments q \<longrightarrow> ?sc q
                  < score (candidate ratio target segments (fst p') (snd p')))
           \<and> (\<forall>q \<in> set ys. nonblank segments q \<longrightarrow> ?sc q
                  \<le> score (candidate ratio target segments (fst p') (snd p')))"
        using True by (intro exI [of _ ps] exI [of _ p'] exI [of _ "[]"]) (simp add: sc_cand)
      ultimately show ?thesis
        by (simp only: step option.case)
    next
      case False
      then have "window_step ratio target segments ?best p' = Some m"
        using Some by (auto simp: window_step_eq [OF rng])
      moreover have "\<exists>xs' p'' ys'. ps @ [p'] = xs' @ p'' # ys' \<and> nonblank segments p''
           \<and> m = candidate ratio target segments (fst p'') (snd p'')
           \<and> (\<forall>q \<in> set xs'. nonblank segments q \<longrightarrow> ?sc q < score m)
           \<and> (\<forall>q \<in> set ys'. nonblank segments q \<longrightarrow> ?sc q \<le> score m)"
        using False ps nb m before after
        by (intro exI [of _ xs] exI [of _ p] exI [of _ "ys @ [p']"]) auto
      ultimately show ?thesis
        by (simp only: step option.case)
    qed
  qed
qed

lemma valid_window_pairs:
  "valid_window segments max_window w i
   \<longleftrightarrow> (w, i) \<in> set (window_pairs segments max_window) \<and> nonblank segments (w, i)"
  by (auto simp: valid_window_def set_window_pairs in_range_def nonblank_def)

lemma scan_window_pairs:
  "case foldl (window_step ratio target segments) None (window_pairs segments max_window) of
      None \<Rightarrow> (\<forall>w i. \<not> valid_window segments max_window w i)
    | Some m \<Rightarrow>
        (\<exists>w i. valid_window segments max_window w i
           \<and> m = candidate ratio target segments w i
           \<and> (\<forall>w' i'. valid_window segments max_window w' i' \<longrightarrow>
                 window_score ratio target segments w' i' \<le> score m
                 \<and> (window_score ratio target segments w' i' = score m
                      \<longrightarrow> w < w' \<or> (w = w' \<and> i \<le> i'))))"
proof -
  let ?ps = "window_pairs segments max_window"
  let ?r = "foldl (window_step ratio target segments) None ?ps"
  let ?sc = "\<lambda>q. window_score ratio target segments (fst q) (snd q)"
  have rng: "\<forall>p \<in> set ?ps. in_range segments p"
    by (simp add: set_window_pairs)
  note res = scan_result [OF rng, of ratio target]
  show ?thesis
  proof (cases ?r)
    case None
    then have "\<forall>p \<in> set ?ps. \<not> nonblank segments p"
      using res by simp
    then have "\<forall>w i. \<not> valid_window segments max_window w i"
      by (auto simp: valid_window_pairs)
    with None show ?thesis by simp
  next
    case (Some m)
    then obtain xs p ys where ps: "?ps = xs @ p # ys" and nb: "nonblank segments p"
      and m: "m = candidate ratio target segments (fst p) (snd p)"
      and before: "\<forall>q \<in> set xs. nonblank segments q \<longrightarrow> ?sc q < score m"
      and after: "\<forall>q \<in> set ys. nonblank segments q \<longrightarrow> ?sc q \<le> score m"
      using res by auto
    have scm: "score m = ?sc p"
      using m by (simp add: candidate_def)
    have later: "\<forall>q \<in> set ys. lex_before p q"
      using sorted_window_pairs [of segments max_window]
      by (simp add: ps sorted_wrt_append)
    have valid_p: "valid_window segments max_window (fst p) (snd p)"
      using nb ps by (simp add: valid_window_pairs)
    have best: "window_score ratio target segments w' i' \<le> score m
        \<and> (window_score ratio target segments w' i' = score m
             \<longrightarrow> fst p < w' \<or> (fst p = w' \<and> snd p \<le> i'))"
      if v: "valid_window segments max_window w' i'" for w' i'
    proof -
      from v have mem: "(w', i') \<in> set xs \<or> (w', i') = p \<or> (w', i') \<in> set ys"
        and nbq: "nonblank segments (w', i')"
        by (auto simp: valid_window_pairs ps)
      from mem show ?thesis
      proof (elim disjE)
        assume "(w', i') \<in> set xs"
        with before nbq have "?sc (w', i') < score m" by blast
        then show ?thesis by simp
      next
        assume "(w', i') = p"
        then have p: "p = (w', i')" by (rule sym)
        show ?thesis
          using scm by (simp add: p)
      next
        assume y: "(w', i') \<in> set ys"
        with after nbq have "?sc (w', i') \<le> score m" by blast
        moreover from y later have "lex_before p (w', i')" by blast
        ultimately show ?thesis by (auto simp: lex_before_def)
      qed
    qed
    have "\<exists>w i. valid_window segments max_window w i
           \<and> m = candidate ratio target segments w i
           \<and> (\<forall>w' i'. valid_window segments max_window w' i' \<longrightarrow>
                 window_score ratio target segments w' i' \<le> score m
                 \<and> (window_score ratio target segments w' i' = score m
                      \<longrightarrow> w < w' \<or> (w = w' \<and> i \<le> i')))"
      using valid_p m best by (intro exI [of _ "fst p"] exI [of _ "snd p"]) blast
    with Some show ?thesis by simp
  qed
qed

lemma no_window_in_empty: "\<not> valid_window [] max_window w i"
  by (simp add: valid_window_def)

text \<open>
  C4: whenever the query normalizes to a non-empty string and some candidate window
  exists, \<^verbatim>\<open>find_best_match\<close> returns a match; it is the candidate of a window whose score
  no other candidate window exceeds, and every candidate window with the same score is
  wider, or as wide and not earlier. The similarity ratio is a parameter; the score
  includes the 0.5 bonus.
\<close>

theorem find_best_match_first_maximum:
  assumes "normalize query \<noteq> []" and "valid_window segments max_window w0 i0"
  shows "\<exists>m w i. find_best_match ratio segments query max_window = Some m
           \<and> valid_window segments max_window w i
           \<and> m = candidate ratio (normalize query) segments w i
           \<and> (\<forall>w' i'. valid_window segments max_window w' i' \<longrightarrow>
                 window_score ratio (normalize query) segments w' i' \<le> score m
                 \<and> (window_score ratio (normalize query) segments w' i' = score m
                      \<longrightarrow> w < w' \<or> (w = w' \<and> i \<le> i')))"
proof -
  let ?r = "foldl (window_step ratio (normalize query) segments) None
              (window_pairs segments max_window)"
  note res = scan_window_pairs [where ratio = ratio and target = "normalize query"
      and segments = segments and max_window = max_window]
  have "segments \<noteq> []"
    using assms(2) no_window_in_empty by blast
  then have eq: "find_best_match ratio segments query max_window = ?r"
    using assms(1) by (simp add: find_best_match_scan)
  show ?thesis
  proof (cases ?r)
    case None
    then have "\<not> valid_window segments max_window w0 i0"
      using res by simp
    with assms(2) show ?thesis by simp
  next
    case (Some m)
    then have "\<exists>w i. valid_window segments max_window w i
           \<and> m = candidate ratio (normalize query) segments w i
           \<and> (\<forall>w' i'. valid_window segments max_window w' i' \<longrightarrow>
                 window_score ratio (normalize query) segments w' i' \<le> score m
                 \<and> (window_score ratio (normalize query) segments w' i' = score m
                      \<longrightarrow> w < w' \<or> (w = w' \<and> i \<le> i')))"
      using res by simp
    with Some eq show ?thesis
      by (intro exI [of _ m]) simp
  qed
qed

theorem find_best_match_first_maximum_witness:
  "normalize ''hello'' = ''hello'' \<and> valid_window tie_segments 2 1 1
   \<and> find_best_match exact_ratio tie_segments ''hello'' 2 = Some tie_match
   \<and> (\<exists>m w i. find_best_match exact_ratio tie_segments ''hello'' 2 = Some m
           \<and> valid_window tie_segments 2 w i
           \<and> m = candidate exact_ratio (normalize ''hello'') tie_segments w i
           \<and> (\<forall>w' i'. valid_window tie_segments 2 w' i' \<longrightarrow>
                 window_score exact_ratio (normalize ''hello'') tie_segments w' i'
                   \<le> score m
                 \<and> (window_score exact_ratio (normalize ''hello'') tie_segments w' i'
                        = score m
                      \<longrightarrow> w < w' \<or> (w = w' \<and> i \<le> i'))))"
proof -
  have n: "normalize ''hello'' = ''hello''"
    by code_simp
  then have q: "normalize ''hello'' \<noteq> []"
    by simp
  have v: "valid_window tie_segments 2 1 1"
    by code_simp
  have e: "find_best_match exact_ratio tie_segments ''hello'' 2 = Some tie_match"
    by code_simp
  from n v e find_best_match_first_maximum [OF q v, of exact_ratio] show ?thesis
    by (intro conjI)
qed

text \<open>
  C9, as stated: no match is returned exactly when the query normalizes to the empty
  string or there are no segments. It fails: a caption whose text is only punctuation
  passes the timeline builder, its window normalizes to the empty string and is skipped,
  and no match is returned for a query that normalizes to \<^verbatim>\<open>hello\<close>.
\<close>

theorem no_match_with_segments_and_query:
  "read_segments_from_json3 dots_events = [\<lparr>seg_text = ''...'', seg_start = 0, seg_end = 1\<rparr>]
   \<and> normalize ''hello'' = ''hello''
   \<and> find_best_match exact_ratio (read_segments_from_json3 dots_events) ''hello'' 4 = None"
  by code_simp

text \<open>
  C9, amended: no match is returned exactly when the query normalizes to the empty string
  or no window of width 1 to \<open>max_window\<close> that fits in the sequence has a text that
  normalizes to a non-empty string (as when the sequence is empty). The run then ends with
  status 2, and with status 1 when the transcript could not be fetched.
\<close>

theorem no_match_iff_no_candidate:
  "(find_best_match ratio segments query max_window = None
      \<longleftrightarrow> normalize query = [] \<or> (\<forall>w i. \<not> valid_window segments max_window w i))
   \<and> (fetch sv = Some evs
        \<and> find_best_match ratio (read_segments_from_json3 evs) query max_window = None
       \<longrightarrow> fst (main sv ratio query max_window before_pad after_pad wd) = 2)
   \<and> (fetch sv = None
       \<longrightarrow> fst (main sv ratio query max_window before_pad after_pad wd) = 1)"
proof (intro conjI)
  let ?r = "foldl (window_step ratio (normalize query) segments) None
              (window_pairs segments max_window)"
  note res = scan_window_pairs [where ratio = ratio and target = "normalize query"
      and segments = segments and max_window = max_window]
  show "find_best_match ratio segments query max_window = None
      \<longleftrightarrow> normalize query = [] \<or> (\<forall>w i. \<not> valid_window segments max_window w i)"
  proof (cases "segments = [] \<or> normalize query = []")
    case True
    then show ?thesis
      by (auto simp: find_best_match_scan no_window_in_empty)
  next
    case False
    then have eq: "find_best_match ratio segments query max_window = ?r"
      by (simp add: find_best_match_scan)
    show ?thesis
    proof (cases ?r)
      case None
      with res eq False show ?thesis by simp
    next
      case (Some m)
      with res have "\<exists>w i. valid_window segments max_window w i" by auto
      with Some eq False show ?thesis by auto
    qed
  qed
next
  show "fetch sv = Some evs
        \<and> find_best_match ratio (read_segments_from_json3 evs) query max_window = None
       \<longrightarrow> fst (main sv ratio query max_window before_pad after_pad wd) = 2"
    by (simp add: main_def)
next
  show "fetch sv = None
       \<longrightarrow> fst (main sv ratio query max_window before_pad after_pad wd) = 1"
    by (simp add: main_def)
qed

theorem no_match_iff_no_candidate_witness:
  "find_best_match exact_ratio (read_segments_from_json3 dots_events) ''hello'' 4 = None
   \<and> fst (main ((services_with any_tier None)\<lparr>fetch := Some dots_events\<rparr>) exact_ratio
            ''hello'' 4 5 5 fresh) = 2
   \<and> fst (main ((services_with any_tier None)\<lparr>fetch := None\<rparr>) exact_ratio
            ''hello'' 4 5 5 fresh) = 1"
proof -
  have n: "find_best_match exact_ratio (read_segments_from_json3 dots_events) ''hello'' 4 = None"
    by code_simp
  have f: "fetch ((services_with any_tier None)\<lparr>fetch := Some dots_events\<rparr>) = Some dots_events"
    and g: "fetch ((services_with any_tier None)\<lparr>fetch := None\<rparr>) = None"
    by simp_all
  from n f
    no_match_iff_no_candidate [of exact_ratio "read_segments_from_json3 dots_events" "''hello''" 4
      "(services_with any_tier None)\<lparr>fetch := Some dots_events\<rparr>" dots_events 5 5 fresh]
  have a: "fst (main ((services_with any_tier None)\<lparr>fetch := Some dots_events\<rparr>) exact_ratio
            ''hello'' 4 5 5 fresh) = 2"
    by blast
  from g
    no_match_iff_no_candidate [of exact_ratio "read_segments_from_json3 dots_events" "''hello''" 4
      "(services_with any_tier None)\<lparr>fetch := None\<rparr>" dots_events 5 5 fresh]
  have b: "fst (main ((services_with any_tier None)\<lparr>fetch := None\<rparr>) exact_ratio
            ''hello'' 4 5 5 fresh) = 1"
    by blast
  from n a b show ?thesis by (simp only: simp_thms)
qed

end
